theory Spec2Isabelle
  imports Complex_Main
begin

section \<open>Python values used by the vehicle generator\<close>

text \<open>
  The source is Python. A \<open>float\<close> is a real number; infinities and NaN are outside the
  model. The distance, the bearing and the progress of a vehicle are computed in exact
  arithmetic. The interpolation of \<open>get_current_position\<close> is computed as the code does
  it, each operation rounded to the nearest double. The unbounded \<open>int\<close> is \<open>int\<close>, a
  tuple of two floats is a pair, a list is a list. An exception is a value of type
  \<open>error\<close>, returned on the left of a sum.
\<close>

datatype error = IndexError | ValueError | ZeroDivisionError | RuntimeError | SinkError

text \<open>\<open>xs[i]\<close>: the index \<open>- k\<close> reads the \<open>k\<close>-th element from the end; outside the list the read raises.\<close>

definition py_index :: "'a list \<Rightarrow> int \<Rightarrow> error + 'a" where
  "py_index xs i =
     (if 0 \<le> i \<and> i < int (length xs) then Inr (xs ! nat i)
      else if i < 0 \<and> - int (length xs) \<le> i then Inr (xs ! nat (int (length xs) + i))
      else Inl IndexError)"

text \<open>
  IEEE 754 binary64 arithmetic, for results below the overflow threshold: the exact result
  is rounded to the nearest multiple of the unit in the last place, \<open>2\<close> to the power
  \<open>e - 52\<close> where \<open>e\<close> is the binary exponent of the value and at least \<open>- 1022\<close>; a tie
  goes to the even multiple.
\<close>

definition round_half_even :: "real \<Rightarrow> int" where
  "round_half_even q =
     (let f = \<lfloor>q\<rfloor>; d = q - of_int f
      in if d < 1 / 2 then f
         else if 1 / 2 < d then f + 1
         else if even f then f
         else f + 1)"

definition pow2 :: "int \<Rightarrow> real" where
  "pow2 k = (if 0 \<le> k then 2 ^ nat k else 1 / 2 ^ nat (- k))"

definition round_double :: "real \<Rightarrow> real" where
  "round_double x =
     (if x = 0 then 0
      else let e = max \<lfloor>log 2 \<bar>x\<bar>\<rfloor> (- 1022); ulp = pow2 (e - 52)
           in of_int (round_half_even (x / ulp)) * ulp)"

definition double_add :: "real \<Rightarrow> real \<Rightarrow> real" where
  "double_add x y = round_double (x + y)"

definition double_sub :: "real \<Rightarrow> real \<Rightarrow> real" where
  "double_sub x y = round_double (x - y)"

definition double_mul :: "real \<Rightarrow> real \<Rightarrow> real" where
  "double_mul x y = round_double (x * y)"

text \<open>
  A real number that is a double, of a magnitude of at most \<open>2 ^ 1022\<close>: the difference
  of two of them does not overflow.
\<close>

definition plain_double :: "real \<Rightarrow> bool" where
  "plain_double x = (round_double x = x \<and> \<bar>x\<bar> \<le> 2 ^ 1022)"

text \<open>The functions of the \<open>math\<close> module that the models call.\<close>

definition radians :: "real \<Rightarrow> real" where
  "radians x = x * pi / 180"

definition degrees :: "real \<Rightarrow> real" where
  "degrees x = x * 180 / pi"

definition math_sqrt :: "real \<Rightarrow> error + real" where
  "math_sqrt x = (if x < 0 then Inl ValueError else Inr (sqrt x))"

definition math_asin :: "real \<Rightarrow> error + real" where
  "math_asin x = (if x < -1 \<or> 1 < x then Inl ValueError else Inr (arcsin x))"

definition atan2 :: "real \<Rightarrow> real \<Rightarrow> real" where
  "atan2 y x =
     (if 0 < x then arctan (y / x)
      else if x < 0 then (if 0 \<le> y then arctan (y / x) + pi else arctan (y / x) - pi)
      else if 0 < y then pi / 2
      else if y < 0 then - (pi / 2)
      else 0)"

text \<open>\<open>x % y\<close> on floats: the result has the sign of the divisor.\<close>

definition float_mod :: "real \<Rightarrow> real \<Rightarrow> error + real" where
  "float_mod x y =
     (if y = 0 then Inl ZeroDivisionError else Inr (x - y * of_int \<lfloor>x / y\<rfloor>))"

definition float_div :: "real \<Rightarrow> real \<Rightarrow> error + real" where
  "float_div x y = (if y = 0 then Inl ZeroDivisionError else Inr (x / y))"


section \<open>models.py\<close>

subsection \<open>Route\<close>

record route =
  tag :: string
  title :: string
  waypoints :: "(real \<times> real) list"

text \<open>\<open>Route.get_distance_between_points\<close>: the haversine formula, in km.\<close>

definition get_distance_between_points :: "real \<times> real \<Rightarrow> real \<times> real \<Rightarrow> error + real" where
  "get_distance_between_points point1 point2 =
     (let (lat1, lon1) = point1;
          (lat2, lon2) = point2;
          lat1_rad = radians lat1;
          lon1_rad = radians lon1;
          lat2_rad = radians lat2;
          lon2_rad = radians lon2;
          dlat = lat2_rad - lat1_rad;
          dlon = lon2_rad - lon1_rad;
          a = (sin (dlat / 2))\<^sup>2 + cos lat1_rad * cos lat2_rad * (sin (dlon / 2))\<^sup>2
      in case math_sqrt a of
           Inl e \<Rightarrow> Inl e
         | Inr s \<Rightarrow>
             (case math_asin s of
                Inl e \<Rightarrow> Inl e
              | Inr t \<Rightarrow> (let c = 2 * t; r = 6371 in Inr (c * r))))"

subsection \<open>Vehicle\<close>

record vehicle =
  vehicle_id :: string
  route :: route
  current_waypoint_index :: int
  progress_to_next_waypoint :: real
  speed_km_hr :: real
  heading :: real

text \<open>\<open>Vehicle.get_current_position\<close>.\<close>

definition get_current_position :: "vehicle \<Rightarrow> error + (real \<times> real)" where
  "get_current_position v =
     (let wps = waypoints (route v) in
      if wps = [] then Inr (0, 0)
      else if int (length wps) - 1 \<le> current_waypoint_index v then py_index wps (- 1)
      else
        case py_index wps (current_waypoint_index v) of
          Inl e \<Rightarrow> Inl e
        | Inr current_waypoint \<Rightarrow>
            (case py_index wps (current_waypoint_index v + 1) of
               Inl e \<Rightarrow> Inl e
             | Inr next_waypoint \<Rightarrow>
                 (let lat = double_add (fst current_waypoint)
                        (double_mul (double_sub (fst next_waypoint) (fst current_waypoint))
                           (progress_to_next_waypoint v));
                      lon = double_add (snd current_waypoint)
                        (double_mul (double_sub (snd next_waypoint) (snd current_waypoint))
                           (progress_to_next_waypoint v))
                  in Inr (lat, lon))))"

text \<open>
  The bearing that \<open>update_heading\<close> computes from the current waypoint to the next one,
  in degrees.
\<close>

definition bearing_degrees :: "real \<times> real \<Rightarrow> real \<times> real \<Rightarrow> error + real" where
  "bearing_degrees current_waypoint next_waypoint =
     (let (lat1, lon1) = current_waypoint;
          (lat2, lon2) = next_waypoint;
          lat1_rad = radians lat1;
          lat2_rad = radians lat2;
          dlon_rad = radians (lon2 - lon1);
          y = sin dlon_rad * cos lat2_rad;
          x = cos lat1_rad * sin lat2_rad - sin lat1_rad * cos lat2_rad * cos dlon_rad;
          bearing = atan2 y x
      in float_mod (degrees bearing + 360) 360)"

text \<open>\<open>Vehicle.update_heading\<close>.\<close>

definition update_heading :: "vehicle \<Rightarrow> error + vehicle" where
  "update_heading v =
     (let wps = waypoints (route v) in
      if int (length wps) - 1 \<le> current_waypoint_index v then Inr v
      else
        case py_index wps (current_waypoint_index v) of
          Inl e \<Rightarrow> Inl e
        | Inr current_waypoint \<Rightarrow>
            (case py_index wps (current_waypoint_index v + 1) of
               Inl e \<Rightarrow> Inl e
             | Inr next_waypoint \<Rightarrow>
                 (case bearing_degrees current_waypoint next_waypoint of
                    Inl e \<Rightarrow> Inl e
                  | Inr b \<Rightarrow> Inr (v\<lparr>heading := b\<rparr>))))"

text \<open>
  The \<open>while\<close> loop of \<open>Vehicle.advance\<close>, on the pair of the waypoint index and the
  progress; \<open>n\<close> is \<open>len(self.route.waypoints)\<close>. The \<open>break\<close> is the branch that returns
  \<open>(0, 0)\<close>.
\<close>

function advance_loop :: "int \<Rightarrow> int \<Rightarrow> real \<Rightarrow> int \<times> real" where
  "advance_loop n i p =
     (if 1 \<le> p \<and> i < n - 1
      then (if n - 1 \<le> i + 1 then (0, 0) else advance_loop n (i + 1) (p - 1))
      else (i, p))"
  by pat_completeness auto
termination
  by (relation "measure (\<lambda>(n, i, p). nat (n - 1 - i))") auto

declare advance_loop.simps [simp del]

text \<open>\<open>Vehicle.advance\<close>.\<close>

definition advance :: "vehicle \<Rightarrow> real \<Rightarrow> error + vehicle" where
  "advance v time_step_seconds =
     (let wps = waypoints (route v) in
      if wps = [] \<or> int (length wps) - 1 \<le> current_waypoint_index v then Inr v
      else
        let distance_km = (speed_km_hr v / 3600) * time_step_seconds in
        case py_index wps (current_waypoint_index v) of
          Inl e \<Rightarrow> Inl e
        | Inr current_waypoint \<Rightarrow>
            (case py_index wps (current_waypoint_index v + 1) of
               Inl e \<Rightarrow> Inl e
             | Inr next_waypoint \<Rightarrow>
                 (case get_distance_between_points current_waypoint next_waypoint of
                    Inl e \<Rightarrow> Inl e
                  | Inr segment_distance \<Rightarrow>
                      if segment_distance = 0
                      then Inr (v\<lparr>current_waypoint_index := current_waypoint_index v + 1,
                                  progress_to_next_waypoint := 0\<rparr>)
                      else
                        (case float_div distance_km segment_distance of
                           Inl e \<Rightarrow> Inl e
                         | Inr progress_increment \<Rightarrow>
                             (let (i, p) = advance_loop (int (length wps))
                                     (current_waypoint_index v)
                                     (progress_to_next_waypoint v + progress_increment)
                              in update_heading
                                   (v\<lparr>current_waypoint_index := i,
                                      progress_to_next_waypoint := p\<rparr>))))))"

text \<open>A sequence of \<open>advance\<close> calls on one vehicle; an exception ends the sequence.\<close>

fun advance_calls :: "vehicle \<Rightarrow> real list \<Rightarrow> error + vehicle" where
  "advance_calls v [] = Inr v"
| "advance_calls v (dt # dts) =
     (case advance v dt of Inl e \<Rightarrow> Inl e | Inr v' \<Rightarrow> advance_calls v' dts)"


section \<open>generator.py\<close>

subsection \<open>Demo routes\<close>

text \<open>
  \<open>VehicleEventGenerator.create_demo_routes\<close>. A decimal literal stands for the double
  nearest to it.
\<close>

definition manhattan_route :: route where
  "manhattan_route =
     \<lparr>tag = ''manhattan-loop'', title = ''Manhattan Downtown Loop'',
      waypoints = [(40.7128, - 74.0060), (40.7505, - 73.9934), (40.7829, - 73.9654),
                   (40.7614, - 73.9776), (40.7282, - 73.9942), (40.7128, - 74.0060)]\<rparr>"

definition brooklyn_route :: route where
  "brooklyn_route =
     \<lparr>tag = ''brooklyn-express'', title = ''Brooklyn Express'',
      waypoints = [(40.6892, - 73.9442), (40.6441, - 73.9570), (40.6195, - 73.9776),
                   (40.5795, - 73.9707), (40.6195, - 73.9776), (40.6441, - 73.9570),
                   (40.6892, - 73.9442)]\<rparr>"

definition queens_route :: route where
  "queens_route =
     \<lparr>tag = ''queens-connector'', title = ''Queens Connector'',
      waypoints = [(40.7282, - 73.7949), (40.7505, - 73.8370), (40.7682, - 73.8370),
                   (40.7505, - 73.8756), (40.7282, - 73.8370), (40.7282, - 73.7949)]\<rparr>"

definition create_demo_routes :: "route list" where
  "create_demo_routes = [manhattan_route, brooklyn_route, queens_route]"

subsection \<open>Encoding\<close>

text \<open>
  The \<open>EventData\<close> that \<open>_create_event_data_optimized\<close> builds: the fields of the JSON
  body and the CloudEvent properties. The fresh \<open>uuid4\<close> is an argument.
\<close>

record event_data =
  ev_agency :: string
  ev_routeTag :: string
  ev_vehicleId :: string
  ev_lat :: real
  ev_lon :: real
  ev_heading :: real
  ev_speedKmHr :: real
  ev_timestamp :: string
  ev_predictable :: bool
  ce_specversion :: string
  ce_type :: string
  ce_source :: string
  ce_subject :: string
  ce_id :: string
  ce_time :: string
  ce_datacontenttype :: string

definition create_event_data_optimized ::
    "vehicle \<Rightarrow> string \<Rightarrow> string \<Rightarrow> string \<Rightarrow> error + event_data" where
  "create_event_data_optimized v agency time_iso event_id =
     (case get_current_position v of
        Inl e \<Rightarrow> Inl e
      | Inr (lat, lon) \<Rightarrow>
          Inr \<lparr>ev_agency = agency, ev_routeTag = tag (route v), ev_vehicleId = vehicle_id v,
               ev_lat = lat, ev_lon = lon, ev_heading = heading v,
               ev_speedKmHr = speed_km_hr v, ev_timestamp = time_iso, ev_predictable = True,
               ce_specversion = ''1.0'', ce_type = ''vehicle.position'',
               ce_source = ''vehicle-generator'',
               ce_subject = agency @ ''/'' @ vehicle_id v, ce_id = event_id,
               ce_time = time_iso, ce_datacontenttype = ''application/json''\<rparr>)"

text \<open>
  \<open>_create_all_events_optimized\<close>: one event per pair of the list, in the order of the
  list; an exception of one task is the exception of the \<open>gather\<close>. \<open>uuid4 k\<close> is the
  identifier drawn for the task at position \<open>k\<close>.
\<close>

fun gather_events ::
    "(string \<times> vehicle) list \<Rightarrow> string \<Rightarrow> (nat \<Rightarrow> string) \<Rightarrow> nat \<Rightarrow> error + event_data list" where
  "gather_events [] time_iso uuid4 k = Inr []"
| "gather_events ((agency, v) # rest) time_iso uuid4 k =
     (case create_event_data_optimized v agency time_iso (uuid4 k) of
        Inl e \<Rightarrow> Inl e
      | Inr ev \<Rightarrow>
          (case gather_events rest time_iso uuid4 (k + 1) of
             Inl e \<Rightarrow> Inl e
           | Inr evs \<Rightarrow> Inr (ev # evs)))"

definition create_all_events_optimized ::
    "(string \<times> vehicle) list \<Rightarrow> string \<Rightarrow> (nat \<Rightarrow> string) \<Rightarrow> error + event_data list" where
  "create_all_events_optimized agency_vehicles time_iso uuid4 =
     gather_events agency_vehicles time_iso uuid4 0"

subsection \<open>The sink\<close>

text \<open>
  The Event Hubs producer client is outside the repository. The pipeline uses three of its
  operations, which are the fields of a \<open>sink\<close>: \<open>'s\<close> is the state of the client, \<open>'b\<close> a
  batch object, \<open>'e\<close> an event. \<open>create_batch\<close> and \<open>send_batch\<close> may raise;
  \<open>add\<close> is a method of the batch and raises \<open>ValueError\<close> when the batch is full.
\<close>

record ('s, 'b, 'e) sink =
  create_batch :: "'s \<Rightarrow> (error + 'b) \<times> 's"
  add :: "'b \<Rightarrow> 'e \<Rightarrow> error + 'b"
  send_batch :: "'b \<Rightarrow> 's \<Rightarrow> error option \<times> 's"

subsection \<open>Submission\<close>

text \<open>
  \<open>_send_single_batch\<close> is a coroutine: it runs until it awaits an operation of the
  client, and other submissions may run before it is resumed. A \<open>submission\<close> is the
  coroutine where it waits, with the chunk \<open>events_batch\<close> it was called on:
  before the first \<open>create_batch\<close>; before the \<open>send_batch\<close> of a batch that is full,
  with the event that did not fit and the events after it; before the \<open>create_batch\<close>
  that follows; before the \<open>send_batch\<close> after the loop; or after the \<open>try\<close> has ended,
  with the exception it raised or the count it returns.
\<close>

datatype ('b, 'e) submission =
    Create_First "'e list"
  | Send_Full "'e list" 'b 'e "'e list"
  | Create_Fresh "'e list" 'e "'e list"
  | Send_Final "'e list" 'b
  | Returned "'e list" "error + nat"

text \<open>
  The \<open>for\<close> loop from an event on, with the current batch and \<open>events_in_batch\<close>, up
  to the next \<open>await\<close>: \<open>add\<close> does not await.
\<close>

fun add_events ::
    "('s, 'b, 'e) sink \<Rightarrow> 'e list \<Rightarrow> 'e list \<Rightarrow> 'b \<Rightarrow> nat \<Rightarrow> ('b, 'e) submission" where
  "add_events snk events_batch [] event_data_batch events_in_batch =
     (if 0 < events_in_batch then Send_Final events_batch event_data_batch
      else Returned events_batch (Inr (length events_batch)))"
| "add_events snk events_batch (event_data # rest) event_data_batch events_in_batch =
     (case add snk event_data_batch event_data of
        Inr b' \<Rightarrow> add_events snk events_batch rest b' (events_in_batch + 1)
      | Inl ValueError \<Rightarrow>
          (if 0 < events_in_batch then Send_Full events_batch event_data_batch event_data rest
           else Create_Fresh events_batch event_data rest)
      | Inl e \<Rightarrow> Returned events_batch (Inl e))"

text \<open>
  One resumption: the awaited operation runs on the state of the client, then the
  coroutine runs up to its next \<open>await\<close>. An exception of the operation ends the
  \<open>try\<close>.
\<close>

fun resume ::
    "('s, 'b, 'e) sink \<Rightarrow> ('b, 'e) submission \<Rightarrow> 's \<Rightarrow> ('b, 'e) submission \<times> 's" where
  "resume snk (Create_First events_batch) s =
     (case create_batch snk s of
        (Inl e, s') \<Rightarrow> (Returned events_batch (Inl e), s')
      | (Inr b, s') \<Rightarrow> (add_events snk events_batch events_batch b 0, s'))"
| "resume snk (Send_Full events_batch b event_data rest) s =
     (case send_batch snk b s of
        (Some e, s') \<Rightarrow> (Returned events_batch (Inl e), s')
      | (None, s') \<Rightarrow> (Create_Fresh events_batch event_data rest, s'))"
| "resume snk (Create_Fresh events_batch event_data rest) s =
     (case create_batch snk s of
        (Inl e, s') \<Rightarrow> (Returned events_batch (Inl e), s')
      | (Inr fresh, s') \<Rightarrow>
          (case add snk fresh event_data of
             Inl e \<Rightarrow> (Returned events_batch (Inl e), s')
           | Inr b' \<Rightarrow> (add_events snk events_batch rest b' 1, s')))"
| "resume snk (Send_Final events_batch b) s =
     (case send_batch snk b s of
        (Some e, s') \<Rightarrow> (Returned events_batch (Inl e), s')
      | (None, s') \<Rightarrow> (Returned events_batch (Inr (length events_batch)), s'))"
| "resume snk (Returned events_batch r) s = (Returned events_batch r, s)"

text \<open>A bound on the resumptions that a submission still needs.\<close>

fun pending :: "('b, 'e) submission \<Rightarrow> nat" where
  "pending (Create_First events_batch) = 2 * length events_batch + 2"
| "pending (Send_Full events_batch b event_data rest) = 2 * length rest + 3"
| "pending (Create_Fresh events_batch event_data rest) = 2 * length rest + 2"
| "pending (Send_Final events_batch b) = 1"
| "pending (Returned events_batch r) = 0"

text \<open>
  A submission resumed until its \<open>try\<close> has ended, with nothing else in between: the
  result is the exception or the count.
\<close>

function finish ::
    "('s, 'b, 'e) sink \<Rightarrow> ('b, 'e) submission \<Rightarrow> 's \<Rightarrow> (error + nat) \<times> 's" where
  "finish snk t s =
     (case t of
        Returned events_batch r \<Rightarrow> (r, s)
      | _ \<Rightarrow> (case resume snk t s of (t', s') \<Rightarrow> finish snk t' s'))"
  by pat_completeness auto
termination
proof -
  have loop: "pending (add_events snk c rest b n) \<le> 2 * length rest + 1"
    for snk :: "('s, 'b, 'e) sink" and c rest b n
  proof (induction rest arbitrary: b n)
    case Nil
    show ?case by simp
  next
    case (Cons ev rest)
    show ?case
    proof (cases "add snk b ev")
      case (Inr b')
      with Cons [of b' "n + 1"] show ?thesis by simp
    next
      case (Inl e)
      then show ?thesis by (cases e) simp_all
    qed
  qed
  have less: "pending t' < pending t"
    if "(t', s') = resume snk t s" and "pending t \<noteq> 0"
    for snk :: "('s, 'b, 'e) sink" and t t' s s'
  proof (cases t)
    case (Create_First c)
    obtain r s1 where c1: "create_batch snk s = (r, s1)" by (cases "create_batch snk s") auto
    show ?thesis using that Create_First c1 loop [of snk c c _ 0]
      by (cases r) (auto simp: le_imp_less_Suc)
  next
    case (Send_Full c b ev rest)
    obtain r s1 where c1: "send_batch snk b s = (r, s1)" by (cases "send_batch snk b s") auto
    show ?thesis using that Send_Full c1 by (cases r) auto
  next
    case (Create_Fresh c ev rest)
    obtain r s1 where c1: "create_batch snk s = (r, s1)" by (cases "create_batch snk s") auto
    show ?thesis
    proof (cases r)
      case (Inl e)
      with that Create_Fresh c1 show ?thesis by auto
    next
      case (Inr fresh)
      show ?thesis using that Create_Fresh c1 Inr loop [of snk c rest _ 1]
        by (cases "add snk fresh ev") (auto simp: le_imp_less_Suc)
    qed
  next
    case (Send_Final c b)
    obtain r s1 where c1: "send_batch snk b s = (r, s1)" by (cases "send_batch snk b s") auto
    show ?thesis using that Send_Final c1 by (cases r) auto
  next
    case (Returned c r)
    with that show ?thesis by simp
  qed
  have less_case: "(case resume snk t s of (t', s') \<Rightarrow> pending t') < pending t"
    if "pending t \<noteq> 0" for snk :: "('s, 'b, 'e) sink" and t s
    using less [of "fst (resume snk t s)" "snd (resume snk t s)" snk t s] that
    by (simp add: case_prod_beta)
  have nz: "pending (Create_First c) \<noteq> 0" "pending (Send_Full c b ev rest) \<noteq> 0"
      "pending (Create_Fresh c ev rest) \<noteq> 0" "pending (Send_Final c b) \<noteq> 0"
    for c rest :: "'e list" and b :: 'b and ev :: 'e
    by simp_all
  show ?thesis
    by (relation "measure (\<lambda>(snk, t, s). pending t)")
       (auto simp del: resume.simps pending.simps intro!: less_case nz)
qed

declare finish.simps [simp del]

text \<open>\<open>_send_single_batch\<close>: \<open>except Exception\<close> turns a failure into the count 0.\<close>

fun batch_result :: "error + nat \<Rightarrow> nat" where
  "batch_result (Inl e) = 0"
| "batch_result (Inr n) = n"

text \<open>\<open>range(start, stop, step)\<close> for a positive step, and the slice \<open>xs[i:j]\<close>.\<close>

function py_range :: "nat \<Rightarrow> nat \<Rightarrow> nat \<Rightarrow> nat list" where
  "py_range i stop step =
     (if 0 < step \<and> i < stop then i # py_range (i + step) stop step else [])"
  by pat_completeness auto
termination
  by (relation "measure (\<lambda>(i, stop, step). stop - i)") auto

declare py_range.simps [simp del]

definition py_slice :: "'a list \<Rightarrow> nat \<Rightarrow> nat \<Rightarrow> 'a list" where
  "py_slice xs i j = take (j - i) (drop i xs)"

text \<open>The chunks \<open>event_batches\<close> of \<open>_send_events_parallel_batches\<close>.\<close>

definition event_batches :: "'e list \<Rightarrow> 'e list list" where
  "event_batches events_to_send =
     (let batch_size = 100
      in map (\<lambda>i. py_slice events_to_send i (i + batch_size))
           (py_range 0 (length events_to_send) batch_size))"

text \<open>
  The \<open>gather\<close> over the chunks. All submissions start in the order of the list; at
  most 10 hold the semaphore, which is handed on in that order when a submission has
  returned. Where the operations of the client suspend decides which submission the event
  loop resumes next: that is the argument \<open>sched\<close>, a list of positions in the list of
  chunks. A position that is out of range, or of a submission that waits for the semaphore,
  is passed over; a submission that has returned stays as it is.
\<close>

fun is_returned :: "('b, 'e) submission \<Rightarrow> bool" where
  "is_returned (Returned events_batch r) = True"
| "is_returned t = False"

definition holds_semaphore :: "('b, 'e) submission list \<Rightarrow> nat \<Rightarrow> bool" where
  "holds_semaphore ts k = (k < 10 + length (filter is_returned ts))"

fun run_schedule ::
    "('s, 'b, 'e) sink \<Rightarrow> nat list \<Rightarrow> ('b, 'e) submission list \<Rightarrow> 's
       \<Rightarrow> ('b, 'e) submission list \<times> 's" where
  "run_schedule snk [] ts s = (ts, s)"
| "run_schedule snk (k # sched) ts s =
     (if k < length ts \<and> holds_semaphore ts k
      then (case resume snk (ts ! k) s of (t', s') \<Rightarrow> run_schedule snk sched (ts[k := t']) s')
      else run_schedule snk sched ts s)"

text \<open>
  When \<open>sched\<close> is used up, the submissions that have not returned are resumed to their
  end, in the order of the list.
\<close>

fun finish_all ::
    "('s, 'b, 'e) sink \<Rightarrow> ('b, 'e) submission list \<Rightarrow> 's \<Rightarrow> (error + nat) list \<times> 's" where
  "finish_all snk [] s = ([], s)"
| "finish_all snk (t # ts) s =
     (case finish snk t s of
        (r, s1) \<Rightarrow> (case finish_all snk ts s1 of (rs, s2) \<Rightarrow> (r # rs, s2)))"

text \<open>The outcome of the \<open>try\<close> of every submission, in the order of the chunks.\<close>

definition gather_batches ::
    "('s, 'b, 'e) sink \<Rightarrow> nat list \<Rightarrow> 'e list list \<Rightarrow> 's \<Rightarrow> (error + nat) list \<times> 's" where
  "gather_batches snk sched event_batches_list s =
     (case run_schedule snk sched (map Create_First event_batches_list) s of
        (ts, s1) \<Rightarrow> finish_all snk ts s1)"

text \<open>\<open>_send_events_parallel_batches\<close>.\<close>

definition send_events_parallel_batches ::
    "('s, 'b, 'e) sink \<Rightarrow> nat list \<Rightarrow> 'e list \<Rightarrow> 's \<Rightarrow> nat \<times> 's" where
  "send_events_parallel_batches snk sched events_to_send s =
     (if events_to_send = [] then (0, s)
      else case gather_batches snk sched (event_batches events_to_send) s of
             (outcomes, s') \<Rightarrow> (sum_list (map batch_result outcomes), s'))"


text \<open>
  What a submission keeps of the chunk it was called on: the chunk stays the same, and a
  count that it returns is the length of the chunk. \<open>raised\<close> holds of a submission
  whose \<open>try\<close> ended with an exception.
\<close>

fun tracks :: "'e list \<Rightarrow> ('b, 'e) submission \<Rightarrow> bool" where
  "tracks c (Create_First events_batch) = (events_batch = c)"
| "tracks c (Send_Full events_batch b event_data rest) = (events_batch = c)"
| "tracks c (Create_Fresh events_batch event_data rest) = (events_batch = c)"
| "tracks c (Send_Final events_batch b) = (events_batch = c)"
| "tracks c (Returned events_batch (Inl e)) = (events_batch = c)"
| "tracks c (Returned events_batch (Inr n)) = (events_batch = c \<and> n = length c)"


subsection \<open>The feed loop\<close>

text \<open>The fields of \<open>VehicleEventGenerator\<close> that the loop reads and writes.\<close>

record 's generator =
  producer_client :: "'s option"
  vehicles :: "vehicle list"
  running :: bool

text \<open>
  \<open>send_vehicle_events\<close>. The Python returns \<open>None\<close>; the tick total that it logs is
  returned here beside the generator, as the record of that log line.
\<close>

definition send_vehicle_events ::
    "('s, 'b, event_data) sink \<Rightarrow> 's generator \<Rightarrow> string \<Rightarrow> string \<Rightarrow> (nat \<Rightarrow> string)
       \<Rightarrow> nat list \<Rightarrow> error + 's generator \<times> nat" where
  "send_vehicle_events snk g agency time_iso uuid4 sched =
     (case producer_client g of
        None \<Rightarrow> Inl RuntimeError
      | Some s \<Rightarrow>
          (let agency_vehicles = map (\<lambda>v. (agency, v)) (vehicles g) in
           case create_all_events_optimized agency_vehicles time_iso uuid4 of
             Inl e \<Rightarrow> Inl e
           | Inr events_to_send \<Rightarrow>
               (case send_events_parallel_batches snk sched events_to_send s of
                  (total_events_sent, s') \<Rightarrow>
                    Inr (g\<lparr>producer_client := Some s'\<rparr>, total_events_sent))))"

text \<open>\<open>advance_vehicles\<close>.\<close>

fun advance_vehicles :: "vehicle list \<Rightarrow> real \<Rightarrow> error + vehicle list" where
  "advance_vehicles [] time_step_seconds = Inr []"
| "advance_vehicles (v # vs) time_step_seconds =
     (case advance v time_step_seconds of
        Inl e \<Rightarrow> Inl e
      | Inr v' \<Rightarrow>
          (case advance_vehicles vs time_step_seconds of
             Inl e \<Rightarrow> Inl e
           | Inr vs' \<Rightarrow> Inr (v' # vs')))"

text \<open>
  The local counters of \<open>run_feed\<close>, with the tick totals that \<open>send_vehicle_events\<close>
  logged so far (latest first).
\<close>

record feed_counters =
  total_events_sent :: int
  batch_count :: int
  logged_tick_totals :: "nat list"

text \<open>
  One iteration of the \<open>while self.running\<close> loop of \<open>run_feed\<close>: what the clock,
  \<open>uuid4\<close> and the event loop give in that iteration are the components \<open>time_iso\<close>,
  \<open>uuid4\<close> and \<open>sched\<close> of \<open>tick\<close>. The pacing sleep and the log lines of the loop
  itself leave the state as it is.
\<close>

definition feed_iteration ::
    "('s, 'b, event_data) sink \<Rightarrow> string \<Rightarrow> int \<Rightarrow> real
       \<Rightarrow> string \<times> (nat \<Rightarrow> string) \<times> nat list
       \<Rightarrow> feed_counters \<times> 's generator \<Rightarrow> error + feed_counters \<times> 's generator" where
  "feed_iteration snk agency num_vehicles poll_interval tick cg =
     (case cg of (c, g) \<Rightarrow>
      case tick of (time_iso, uuid4, sched) \<Rightarrow>
      case send_vehicle_events snk g agency time_iso uuid4 sched of
        Inl e \<Rightarrow> Inl e
      | Inr (g1, tick_total) \<Rightarrow>
          (let c1 = c\<lparr>total_events_sent := total_events_sent c + num_vehicles,
                      batch_count := batch_count c + 1,
                      logged_tick_totals := tick_total # logged_tick_totals c\<rparr> in
           case advance_vehicles (vehicles g1) poll_interval of
             Inl e \<Rightarrow> Inl e
           | Inr vs \<Rightarrow> Inr (c1, g1\<lparr>vehicles := vs\<rparr>)))"

text \<open>
  The loop runs until it is interrupted or an exception leaves it: the list holds one
  entry for each iteration that starts before the interrupt.
\<close>

fun feed_loop ::
    "('s, 'b, event_data) sink \<Rightarrow> string \<Rightarrow> int \<Rightarrow> real
       \<Rightarrow> (string \<times> (nat \<Rightarrow> string) \<times> nat list) list
       \<Rightarrow> feed_counters \<times> 's generator \<Rightarrow> error + feed_counters \<times> 's generator" where
  "feed_loop snk agency num_vehicles poll_interval [] cg = Inr cg"
| "feed_loop snk agency num_vehicles poll_interval (tick # ticks) cg =
     (case feed_iteration snk agency num_vehicles poll_interval tick cg of
        Inl e \<Rightarrow> Inl e
      | Inr cg' \<Rightarrow> feed_loop snk agency num_vehicles poll_interval ticks cg')"


section \<open>Concrete inputs\<close>

text \<open>
  A vehicle as \<open>setup_vehicles\<close> builds it on the first demo route, with the starting
  waypoint 0, the starting progress 0 and the default speed.
\<close>

definition demo_vehicle :: vehicle where
  "demo_vehicle =
     \<lparr>vehicle_id = ''vehicle-001'', route = manhattan_route, current_waypoint_index = 0,
      progress_to_next_waypoint = 0, speed_km_hr = 25, heading = 0\<rparr>"

text \<open>A vehicle on a route with exactly one waypoint.\<close>

definition single_stop_vehicle :: vehicle where
  "single_stop_vehicle =
     \<lparr>vehicle_id = ''vehicle-001'',
      route = \<lparr>tag = ''stop'', title = ''Single Stop'', waypoints = [(40.7128, - 74.0060)]\<rparr>,
      current_waypoint_index = 0, progress_to_next_waypoint = 0, speed_km_hr = 25,
      heading = 0\<rparr>"

text \<open>A route whose last two waypoints are the same point, and a vehicle on its last segment.\<close>

definition closing_stop_vehicle :: vehicle where
  "closing_stop_vehicle =
     \<lparr>vehicle_id = ''vehicle-001'',
      route = \<lparr>tag = ''closing'', title = ''Closing Stop'',
               waypoints = [(0, 0), (0, 1), (0, 1)]\<rparr>,
      current_waypoint_index = 1, progress_to_next_waypoint = 0, speed_km_hr = 25,
      heading = 0\<rparr>"

text \<open>
  A route whose first two waypoints are the same point and whose third lies due east, and a
  vehicle at its start; the heading 0 is the one \<open>update_heading\<close> gives there.
\<close>

definition doubled_start_vehicle :: vehicle where
  "doubled_start_vehicle =
     \<lparr>vehicle_id = ''vehicle-001'',
      route = \<lparr>tag = ''doubled'', title = ''Doubled Start'',
               waypoints = [(0, 0), (0, 0), (0, 1)]\<rparr>,
      current_waypoint_index = 0, progress_to_next_waypoint = 0, speed_km_hr = 25,
      heading = 0\<rparr>"

text \<open>
  A vehicle at the start of the route \<open>[(0,0), (0,1), (1,1), (0,0)]\<close>, and a vehicle on a
  segment from latitude 1 to latitude \<open>2\<close> to the power \<open>- 54\<close>; all these coordinates
  are doubles.
\<close>

definition grid_vehicle :: vehicle where
  "grid_vehicle =
     \<lparr>vehicle_id = ''vehicle-001'',
      route = \<lparr>tag = ''loop'', title = ''Loop'', waypoints = [(0, 0), (0, 1), (1, 1), (0, 0)]\<rparr>,
      current_waypoint_index = 0, progress_to_next_waypoint = 0, speed_km_hr = 25,
      heading = 0\<rparr>"

definition tiny_step_vehicle :: vehicle where
  "tiny_step_vehicle =
     \<lparr>vehicle_id = ''vehicle-001'',
      route = \<lparr>tag = ''tiny'', title = ''Tiny Step'', waypoints = [(1, 0), (1 / 2 ^ 54, 0)]\<rparr>,
      current_waypoint_index = 0, progress_to_next_waypoint = 0, speed_km_hr = 25,
      heading = 0\<rparr>"


definition failing_sink :: "(unit, 'e list, 'e) sink" where
  "failing_sink =
     \<lparr>create_batch = (\<lambda>s. (Inl SinkError, s)),
      add = (\<lambda>b e. Inr (b @ [e])),
      send_batch = (\<lambda>b s. (Some SinkError, s))\<rparr>"

text \<open>
  A client that counts the batches it has created and raises on \<open>send_batch\<close> while it
  has created fewer than two.
\<close>

definition counting_sink :: "(nat, 'e list, 'e) sink" where
  "counting_sink =
     \<lparr>create_batch = (\<lambda>s. (Inr [], s + 1)),
      add = (\<lambda>b e. Inr (b @ [e])),
      send_batch = (\<lambda>b s. if s < 2 then (Some SinkError, s) else (None, s))\<rparr>"

definition fixed_uuid4 :: "nat \<Rightarrow> string" where
  "fixed_uuid4 k = ''00000000-0000-4000-8000-000000000000''"

definition fresh_counters :: feed_counters where
  "fresh_counters = \<lparr>total_events_sent = 0, batch_count = 0, logged_tick_totals = []\<rparr>"

definition single_stop_generator :: "'s \<Rightarrow> 's generator" where
  "single_stop_generator s =
     \<lparr>producer_client = Some s, vehicles = [single_stop_vehicle], running = True\<rparr>"


section \<open>The distance between two points\<close>

lemma haversine_arg_bounds:
  fixes p q l :: real
  defines "a \<equiv> (sin ((q - p) / 2))\<^sup>2 + cos p * cos q * (sin (l / 2))\<^sup>2"
  shows "0 \<le> a \<and> a \<le> 1"
proof -
  define s where "s = (sin (l / 2))\<^sup>2"
  have s01: "0 \<le> s" "s \<le> 1"
  proof -
    show "0 \<le> s" by (simp add: s_def)
    have "\<bar>sin (l / 2)\<bar> \<le> 1" by simp
    then have "(sin (l / 2))\<^sup>2 \<le> 1\<^sup>2" by (rule power2_le_iff_abs_le [THEN iffD2, rotated]) simp
    then show "s \<le> 1" by (simp add: s_def)
  qed
  have h1: "(sin ((q - p) / 2))\<^sup>2 = (1 - cos (q - p)) / 2"
  proof -
    have "2 * ((q - p) / 2) = q - p" by simp
    then have "cos (q - p) = 1 - 2 * (sin ((q - p) / 2))\<^sup>2"
      using cos_double_sin [of "(q - p) / 2"] by (simp only:)
    then show ?thesis by simp
  qed
  have h2: "cos p * cos q = (cos (q - p) + cos (q + p)) / 2"
    by (simp add: cos_diff cos_add)
  have a_eq: "a = (1 - (1 - s) * cos (q - p) + s * cos (q + p)) / 2"
    unfolding a_def s_def [symmetric] h1 h2 by (simp add: field_simps)
  have c1: "- 1 \<le> cos (q - p)" "cos (q - p) \<le> 1" "- 1 \<le> cos (q + p)" "cos (q + p) \<le> 1"
    by simp_all
  have m1: "(1 - s) * cos (q - p) \<le> (1 - s)" using s01 c1 by (simp add: mult_left_le)
  have m2: "- (1 - s) \<le> (1 - s) * cos (q - p)"
    using s01 c1 mult_left_mono [of "- 1" "cos (q - p)" "1 - s"] by simp
  have m3: "s * cos (q + p) \<le> s" using s01 c1 by (simp add: mult_left_le)
  have m4: "- s \<le> s * cos (q + p)"
    using s01 c1 mult_left_mono [of "- 1" "cos (q + p)" "s"] by simp
  show ?thesis unfolding a_eq using m1 m2 m3 m4 by simp
qed

lemma distance_total:
  "\<exists>d. get_distance_between_points a b = Inr d \<and> 0 \<le> d"
proof -
  obtain lat1 lon1 lat2 lon2 where ab: "a = (lat1, lon1)" "b = (lat2, lon2)"
    by (cases a, cases b) auto
  define h where "h = (sin ((radians lat2 - radians lat1) / 2))\<^sup>2 +
     cos (radians lat1) * cos (radians lat2) * (sin ((radians lon2 - radians lon1) / 2))\<^sup>2"
  have hb: "0 \<le> h" "h \<le> 1"
    using haversine_arg_bounds [of "radians lat2" "radians lat1" "radians lon2 - radians lon1"]
    by (simp_all add: h_def)
  have sq: "0 \<le> sqrt h" "sqrt h \<le> 1" using hb by simp_all
  then have sq': "\<not> sqrt h < - 1" by linarith
  have "get_distance_between_points a b = Inr (2 * arcsin (sqrt h) * 6371)"
    using hb sq sq' by (simp add: get_distance_between_points_def ab math_sqrt_def math_asin_def
        Let_def h_def [symmetric])
  moreover have "0 \<le> arcsin (sqrt h)" using sq by (simp add: arcsin_nonneg)
  ultimately show ?thesis by simp
qed

lemma distance_self: "get_distance_between_points p p = Inr 0"
  by (cases p) (simp add: get_distance_between_points_def math_sqrt_def math_asin_def)

lemma distance_sym: "get_distance_between_points a b = get_distance_between_points b a"
proof -
  obtain lat1 lon1 lat2 lon2 where ab: "a = (lat1, lon1)" "b = (lat2, lon2)"
    by (cases a, cases b) auto
  have e: "\<And>x y :: real. (sin ((x - y) / 2))\<^sup>2 = (sin ((y - x) / 2))\<^sup>2"
  proof -
    fix x y :: real
    have "(x - y) / 2 = - ((y - x) / 2)" by (simp add: field_simps)
    then show "(sin ((x - y) / 2))\<^sup>2 = (sin ((y - x) / 2))\<^sup>2"
      by (metis sin_minus power2_minus)
  qed
  show ?thesis
    unfolding ab get_distance_between_points_def
    by (simp add: Let_def e [of "radians lat1" "radians lat2"] e [of "radians lon1" "radians lon2"] mult.commute)
qed


section \<open>Indexing, bearing and the steps of a vehicle\<close>

lemma py_index_nonneg:
  "0 \<le> i \<Longrightarrow> i < int (length xs) \<Longrightarrow> py_index xs i = Inr (xs ! nat i)"
  by (simp add: py_index_def)

lemma py_index_neg:
  "i < 0 \<Longrightarrow> - int (length xs) \<le> i \<Longrightarrow> py_index xs i = Inr (xs ! nat (int (length xs) + i))"
  by (simp add: py_index_def)

lemma py_index_total:
  "- int (length xs) \<le> i \<Longrightarrow> i < int (length xs) \<Longrightarrow> \<exists>x. py_index xs i = Inr x"
  by (simp add: py_index_def Let_def)

lemma py_index_below:
  "i < - int (length xs) \<Longrightarrow> py_index xs i = Inl IndexError"
  by (simp add: py_index_def Let_def)

lemma py_index_last:
  "xs \<noteq> [] \<Longrightarrow> py_index xs (- 1) = Inr (last xs)"
proof -
  assume "xs \<noteq> []"
  then obtain ys y where xs: "xs = ys @ [y]" by (cases xs rule: rev_cases) auto
  have "nat (int (length ys) + 1 + - 1) = length ys" by simp
  then show ?thesis unfolding xs by (simp add: py_index_def)
qed

lemma float_mod_360:
  "\<exists>r. float_mod x 360 = Inr r \<and> 0 \<le> r \<and> r < 360"
proof -
  define k where "k = \<lfloor>x / 360\<rfloor>"
  have "of_int k \<le> x / 360" "x / 360 < of_int k + 1"
    unfolding k_def by linarith+
  then have "0 \<le> x - 360 * of_int k" "x - 360 * of_int k < 360"
    by (simp_all add: field_simps)
  then show ?thesis by (simp add: float_mod_def k_def)
qed

lemma bearing_degrees_range:
  "\<exists>b. bearing_degrees a c = Inr b \<and> 0 \<le> b \<and> b < 360"
  by (cases a, cases c) (simp add: bearing_degrees_def Let_def float_mod_360)

lemma update_heading_parked:
  "int (length (waypoints (route v))) - 1 \<le> current_waypoint_index v \<Longrightarrow> update_heading v = Inr v"
  by (simp add: update_heading_def)

lemma update_heading_moving:
  assumes "- int (length (waypoints (route v))) \<le> current_waypoint_index v"
    and "current_waypoint_index v < int (length (waypoints (route v))) - 1"
  shows "\<exists>b. update_heading v = Inr (v\<lparr>heading := b\<rparr>) \<and> 0 \<le> b \<and> b < 360"
proof -
  let ?wps = "waypoints (route v)"
  obtain cw where cw: "py_index ?wps (current_waypoint_index v) = Inr cw"
    using py_index_total [of ?wps "current_waypoint_index v"] assms by auto
  obtain nw where nw: "py_index ?wps (current_waypoint_index v + 1) = Inr nw"
    using py_index_total [of ?wps "current_waypoint_index v + 1"] assms by auto
  obtain b where b: "bearing_degrees cw nw = Inr b" "0 \<le> b" "b < 360"
    using bearing_degrees_range by blast
  have "update_heading v = Inr (v\<lparr>heading := b\<rparr>)"
    using assms cw nw b by (simp add: update_heading_def)
  with b show ?thesis by blast
qed

lemma update_heading_fields:
  assumes "update_heading v = Inr v'"
  shows "current_waypoint_index v' = current_waypoint_index v \<and>
         progress_to_next_waypoint v' = progress_to_next_waypoint v \<and>
         speed_km_hr v' = speed_km_hr v \<and> route v' = route v \<and> vehicle_id v' = vehicle_id v"
  using assms by (auto simp: update_heading_def Let_def split: if_splits sum.splits)

lemma advance_loop_range:
  "i < n - 1 \<Longrightarrow> 0 \<le> p \<Longrightarrow> advance_loop n i p = (i', p') \<Longrightarrow>
     0 \<le> p' \<and> p' < 1 \<and> (i' = 0 \<or> i \<le> i') \<and> (i' = 0 \<or> i' < n - 1)"
proof (induction n i p rule: advance_loop.induct)
  case (1 n i p)
  show ?case
  proof (cases "1 \<le> p")
    case False
    with "1.prems" show ?thesis by (simp add: advance_loop.simps [of n i p])
  next
    case True
    show ?thesis
    proof (cases "n - 1 \<le> i + 1")
      case True
      with \<open>1 \<le> p\<close> "1.prems" show ?thesis by (simp add: advance_loop.simps [of n i p])
    next
      case False
      with \<open>1 \<le> p\<close> "1.prems" have rec: "advance_loop n (i + 1) (p - 1) = (i', p')"
        by (simp add: advance_loop.simps [of n i p])
      have "0 \<le> p' \<and> p' < 1 \<and> (i' = 0 \<or> i + 1 \<le> i') \<and> (i' = 0 \<or> i' < n - 1)"
        using "1.IH" [OF _ False _ _ rec] \<open>1 \<le> p\<close> "1.prems"(1) False by simp
      then show ?thesis by auto
    qed
  qed
qed

lemma advance_parked:
  "waypoints (route v) = [] \<or> int (length (waypoints (route v))) - 1 \<le> current_waypoint_index v
     \<Longrightarrow> advance v dt = Inr v"
  by (auto simp: advance_def)

lemma advance_moving:
  assumes lo: "- int (length (waypoints (route v))) \<le> current_waypoint_index v"
    and hi: "current_waypoint_index v < int (length (waypoints (route v))) - 1"
  shows "\<exists>cw nw seg.
           py_index (waypoints (route v)) (current_waypoint_index v) = Inr cw \<and>
           py_index (waypoints (route v)) (current_waypoint_index v + 1) = Inr nw \<and>
           get_distance_between_points cw nw = Inr seg \<and> 0 \<le> seg \<and>
           advance v dt =
             (if seg = 0
              then Inr (v\<lparr>current_waypoint_index := current_waypoint_index v + 1,
                          progress_to_next_waypoint := 0\<rparr>)
              else update_heading
                     (v\<lparr>current_waypoint_index :=
                          fst (advance_loop (int (length (waypoints (route v))))
                                 (current_waypoint_index v)
                                 (progress_to_next_waypoint v + speed_km_hr v / 3600 * dt / seg)),
                        progress_to_next_waypoint :=
                          snd (advance_loop (int (length (waypoints (route v))))
                                 (current_waypoint_index v)
                                 (progress_to_next_waypoint v + speed_km_hr v / 3600 * dt / seg))\<rparr>))"
proof -
  let ?wps = "waypoints (route v)"
  obtain cw where cw: "py_index ?wps (current_waypoint_index v) = Inr cw"
    using py_index_total [of ?wps "current_waypoint_index v"] lo hi by auto
  obtain nw where nw: "py_index ?wps (current_waypoint_index v + 1) = Inr nw"
    using py_index_total [of ?wps "current_waypoint_index v + 1"] lo hi by auto
  obtain seg where seg: "get_distance_between_points cw nw = Inr seg" "0 \<le> seg"
    using distance_total by blast
  have ne: "?wps \<noteq> []" using lo hi by auto
  have "advance v dt =
             (if seg = 0
              then Inr (v\<lparr>current_waypoint_index := current_waypoint_index v + 1,
                          progress_to_next_waypoint := 0\<rparr>)
              else update_heading
                     (v\<lparr>current_waypoint_index :=
                          fst (advance_loop (int (length ?wps))
                                 (current_waypoint_index v)
                                 (progress_to_next_waypoint v + speed_km_hr v / 3600 * dt / seg)),
                        progress_to_next_waypoint :=
                          snd (advance_loop (int (length ?wps))
                                 (current_waypoint_index v)
                                 (progress_to_next_waypoint v + speed_km_hr v / 3600 * dt / seg))\<rparr>))"
    using hi ne cw nw seg
    by (simp add: advance_def float_div_def Let_def case_prod_beta)
  with cw nw seg show ?thesis by blast
qed

lemma advance_below:
  assumes "current_waypoint_index v < - int (length (waypoints (route v)))"
    and "waypoints (route v) \<noteq> []"
  shows "advance v dt = Inl IndexError"
proof -
  have "0 < int (length (waypoints (route v)))" using assms(2) by simp
  then have "\<not> int (length (waypoints (route v))) - 1 \<le> current_waypoint_index v"
    using assms(1) by linarith
  then show ?thesis using assms by (simp add: advance_def py_index_below Let_def)
qed

lemma advance_loop_index:
  "advance_loop n i p = (i', p') \<Longrightarrow> i' = 0 \<or> i \<le> i'"
proof (induction n i p rule: advance_loop.induct)
  case (1 n i p)
  show ?case
  proof (cases "1 \<le> p \<and> i < n - 1")
    case False
    with "1.prems" show ?thesis by (auto simp: advance_loop.simps [of n i p])
  next
    case True
    show ?thesis
    proof (cases "n - 1 \<le> i + 1")
      case True
      with \<open>1 \<le> p \<and> i < n - 1\<close> "1.prems" show ?thesis
        by (simp add: advance_loop.simps [of n i p])
    next
      case False
      with True "1.prems" have rec: "advance_loop n (i + 1) (p - 1) = (i', p')"
        by (simp add: advance_loop.simps [of n i p])
      have "i' = 0 \<or> i + 1 \<le> i'" using "1.IH" [OF True False rec] .
      then show ?thesis by auto
    qed
  qed
qed

lemma update_heading_total:
  assumes "- int (length (waypoints (route v))) \<le> current_waypoint_index v"
  shows "\<exists>v'. update_heading v = Inr v'"
proof (cases "int (length (waypoints (route v))) - 1 \<le> current_waypoint_index v")
  case True
  then show ?thesis by (simp add: update_heading_parked)
next
  case False
  then show ?thesis using update_heading_moving [OF assms] by fastforce
qed

lemma advance_total:
  assumes lo: "- int (length (waypoints (route v))) \<le> current_waypoint_index v"
  shows "\<exists>v'. advance v dt = Inr v'"
proof (cases "waypoints (route v) = [] \<or>
    int (length (waypoints (route v))) - 1 \<le> current_waypoint_index v")
  case True
  then show ?thesis by (simp add: advance_parked)
next
  case False
  let ?n = "int (length (waypoints (route v)))"
  from False have hi: "current_waypoint_index v < ?n - 1" by auto
  obtain seg where seg: "0 \<le> seg" and eq: "advance v dt =
             (if seg = 0
              then Inr (v\<lparr>current_waypoint_index := current_waypoint_index v + 1,
                          progress_to_next_waypoint := 0\<rparr>)
              else update_heading
                     (v\<lparr>current_waypoint_index :=
                          fst (advance_loop ?n (current_waypoint_index v)
                                 (progress_to_next_waypoint v + speed_km_hr v / 3600 * dt / seg)),
                        progress_to_next_waypoint :=
                          snd (advance_loop ?n (current_waypoint_index v)
                                 (progress_to_next_waypoint v + speed_km_hr v / 3600 * dt / seg))\<rparr>))"
    using advance_moving [OF lo hi, of dt] by blast
  show ?thesis
  proof (cases "seg = 0")
    case True
    with eq show ?thesis by simp
  next
    case False
    let ?q = "progress_to_next_waypoint v + speed_km_hr v / 3600 * dt / seg"
    obtain i' p' where lp: "advance_loop ?n (current_waypoint_index v) ?q = (i', p')"
      by (cases "advance_loop ?n (current_waypoint_index v) ?q") auto
    have "i' = 0 \<or> current_waypoint_index v \<le> i'"
      using advance_loop_index [OF lp] .
    then have "- ?n \<le> i'" using lo by auto
    then have "\<exists>v'. update_heading (v\<lparr>current_waypoint_index := i',
        progress_to_next_waypoint := p'\<rparr>) = Inr v'"
      by (intro update_heading_total) simp
    with eq False lp show ?thesis by simp
  qed
qed

text \<open>
  On a segment of non-zero length the loop of \<open>advance\<close> never leaves the vehicle at
  the last index: it is back at waypoint 0 with progress 0, or further along the route.
\<close>

lemma advance_loop_below_last:
  "i < n - 1 \<Longrightarrow> advance_loop n i p = (i', p') \<Longrightarrow>
     (i' = 0 \<and> p' = 0) \<or> (i \<le> i' \<and> i' < n - 1 \<and> p' < 1)"
proof (induction n i p rule: advance_loop.induct)
  case (1 n i p)
  show ?case
  proof (cases "1 \<le> p")
    case False
    with "1.prems" show ?thesis by (simp add: advance_loop.simps [of n i p])
  next
    case True
    show ?thesis
    proof (cases "n - 1 \<le> i + 1")
      case True
      with \<open>1 \<le> p\<close> "1.prems" show ?thesis by (simp add: advance_loop.simps [of n i p])
    next
      case False
      with \<open>1 \<le> p\<close> "1.prems" have rec: "advance_loop n (i + 1) (p - 1) = (i', p')"
        by (simp add: advance_loop.simps [of n i p])
      have "(i' = 0 \<and> p' = 0) \<or> (i + 1 \<le> i' \<and> i' < n - 1 \<and> p' < 1)"
        using "1.IH" [OF _ False _ rec] \<open>1 \<le> p\<close> "1.prems"(1) False by simp
      then show ?thesis by auto
    qed
  qed
qed

lemma advance_moving_segment_loops:
  assumes lo: "0 \<le> current_waypoint_index v"
    and hi: "current_waypoint_index v < int (length (waypoints (route v))) - 1"
    and cw: "py_index (waypoints (route v)) (current_waypoint_index v) = Inr cw"
    and nw: "py_index (waypoints (route v)) (current_waypoint_index v + 1) = Inr nw"
    and seg: "get_distance_between_points cw nw \<noteq> Inr 0"
  shows "\<exists>v'. advance v dt = Inr v' \<and>
           current_waypoint_index v' < int (length (waypoints (route v))) - 1 \<and>
           ((current_waypoint_index v' = 0 \<and> progress_to_next_waypoint v' = 0) \<or>
            current_waypoint_index v \<le> current_waypoint_index v')"
proof -
  let ?n = "int (length (waypoints (route v)))"
  have lo': "- ?n \<le> current_waypoint_index v" using lo by simp
  obtain cw' nw' s where f:
      "py_index (waypoints (route v)) (current_waypoint_index v) = Inr cw'"
      "py_index (waypoints (route v)) (current_waypoint_index v + 1) = Inr nw'"
      "get_distance_between_points cw' nw' = Inr s"
    and eq: "advance v dt =
             (if s = 0
              then Inr (v\<lparr>current_waypoint_index := current_waypoint_index v + 1,
                          progress_to_next_waypoint := 0\<rparr>)
              else update_heading
                     (v\<lparr>current_waypoint_index :=
                          fst (advance_loop ?n (current_waypoint_index v)
                                 (progress_to_next_waypoint v + speed_km_hr v / 3600 * dt / s)),
                        progress_to_next_waypoint :=
                          snd (advance_loop ?n (current_waypoint_index v)
                                 (progress_to_next_waypoint v + speed_km_hr v / 3600 * dt / s))\<rparr>))"
    using advance_moving [OF lo' hi, of dt] by blast
  from f cw nw seg have s: "s \<noteq> 0" by auto
  let ?q = "progress_to_next_waypoint v + speed_km_hr v / 3600 * dt / s"
  obtain i' p' where lp: "advance_loop ?n (current_waypoint_index v) ?q = (i', p')"
    by (cases "advance_loop ?n (current_waypoint_index v) ?q") auto
  have r: "(i' = 0 \<and> p' = 0) \<or> (current_waypoint_index v \<le> i' \<and> i' < ?n - 1 \<and> p' < 1)"
    using advance_loop_below_last [OF hi lp] .
  then have below: "i' < ?n - 1" using lo hi by auto
  have "- ?n \<le> i'" using r lo by auto
  then obtain v' where v': "update_heading (v\<lparr>current_waypoint_index := i',
        progress_to_next_waypoint := p'\<rparr>) = Inr v'"
    using update_heading_total [of "v\<lparr>current_waypoint_index := i',
        progress_to_next_waypoint := p'\<rparr>"] by auto
  then have fields: "current_waypoint_index v' = i' \<and> progress_to_next_waypoint v' = p'"
    using update_heading_fields by fastforce
  have "advance v dt = Inr v'" using eq s lp v' by simp
  with fields below r show ?thesis by auto
qed



section \<open>A segment that can be evaluated\<close>

lemma east_bearing: "bearing_degrees (0, 0) (0, 1) = Inr 90"
proof -
  have "0 < sin (pi / 180)" by (rule sin_gt_zero) (simp_all add: pi_gt_zero)
  then show ?thesis
    by (simp add: bearing_degrees_def radians_def atan2_def degrees_def float_mod_def)
qed



section \<open>Rounding to the nearest double\<close>

lemma round_double_zero: "round_double 0 = 0"
  by (simp add: round_double_def)

lemma pow2_powr: "pow2 k = 2 powr (of_int k)"
  by (simp add: pow2_def powr_real_of_int inverse_eq_divide)

lemma round_double_exponent:
  assumes "pow2 e \<le> \<bar>x\<bar>" and "\<bar>x\<bar> < pow2 (e + 1)" and "- 1022 \<le> e"
  shows "round_double x = of_int (round_half_even (x / pow2 (e - 52))) * pow2 (e - 52)"
proof -
  have pos: "0 < pow2 e" by (simp add: pow2_powr)
  with assms(1) have x: "0 < \<bar>x\<bar>" by linarith
  then have nz: "x \<noteq> 0" by auto
  have "\<lfloor>log 2 \<bar>x\<bar>\<rfloor> = e"
    using assms(1,2) x by (simp add: floor_log_eq_powr_iff pow2_powr)
  then show ?thesis using nz assms(3) by (simp add: round_double_def Let_def max_def)
qed

lemma round_half_even_int: "round_half_even (of_int k) = k"
  by (simp add: round_half_even_def)

lemma round_double_one: "round_double 1 = 1"
  using round_double_exponent [of 0 1] round_half_even_int [of "2 ^ 52"]
  by (simp add: pow2_def)

lemma round_double_minus_one: "round_double (- 1) = - 1"
  using round_double_exponent [of 0 "- 1"] round_half_even_int [of "- (2 ^ 52)"]
  by (simp add: pow2_def)

lemma round_double_tiny: "round_double (1 / 2 ^ 54) = 1 / 2 ^ 54"
  using round_double_exponent [of "- 54" "1 / 2 ^ 54"] round_half_even_int [of "2 ^ 52"]
  by (simp add: pow2_def)

lemma round_double_tie: "round_double (1 / 2 ^ 54 - 1) = - 1"
proof -
  have fl: "\<lfloor>(1 / 2 - 2 ^ 53 :: real)\<rfloor> = - (2 ^ 53)"
    by (rule floor_unique) simp_all
  have "round_half_even (1 / 2 - 2 ^ 53) = - (2 ^ 53)"
    unfolding round_half_even_def fl by simp
  moreover have "(1 / 2 ^ 54 - 1) / pow2 (- 1 - 52) = (1 / 2 - 2 ^ 53 :: real)"
    by (simp add: pow2_def field_simps)
  ultimately show ?thesis
    using round_double_exponent [of "- 1" "1 / 2 ^ 54 - 1"]
    by (simp add: pow2_def)
qed

lemma py_index_in_set: "py_index xs i = Inr x \<Longrightarrow> x \<in> set xs"
  by (auto simp: py_index_def split: if_splits)

lemma plain_double_zero: "plain_double 0"
  by (simp add: plain_double_def round_double_zero)

lemma plain_double_one: "plain_double 1"
  by (simp add: plain_double_def round_double_one)

lemma plain_double_tiny: "plain_double (1 / 2 ^ 54)"
proof -
  have "(1 / 2 ^ 54 :: real) \<le> 1" by simp
  also have "(1 :: real) \<le> 2 ^ 1022" by (rule one_le_power) simp
  finally have "\<bar>1 / 2 ^ 54 :: real\<bar> \<le> 2 ^ 1022" by simp
  with round_double_tiny show ?thesis unfolding plain_double_def by blast
qed


section \<open>Claims about models.py\<close>

text \<open>
  Claim C8. The distance from a point to itself is 0, and the distance between two
  points is the same in both directions (as results: the call raises in neither order).
\<close>

theorem C8_distance_zero_and_symmetric:
  "get_distance_between_points p p = Inr 0 \<and>
   get_distance_between_points a b = get_distance_between_points b a"
  using distance_self distance_sym by simp

text \<open>
  Claim C6, amended. For a vehicle whose index denotes a waypoint of the route and lies
  before the last index, on a route whose coordinates are doubles,
  \<open>get_current_position\<close> returns exactly the waypoint at the index when the progress is
  0, and exactly the waypoint at the index plus one when the progress is 1 and the
  differences of the coordinates of the two waypoints are computed without rounding. The
  two hypotheses on the index give a route of at least two waypoints when the index is not
  negative.
\<close>

theorem C6_position_at_segment_ends:
  assumes "- int (length (waypoints (route v))) \<le> current_waypoint_index v"
    and "current_waypoint_index v < int (length (waypoints (route v))) - 1"
    and "\<forall>p \<in> set (waypoints (route v)). plain_double (fst p) \<and> plain_double (snd p)"
  shows "\<exists>cw nw.
           py_index (waypoints (route v)) (current_waypoint_index v) = Inr cw \<and>
           py_index (waypoints (route v)) (current_waypoint_index v + 1) = Inr nw \<and>
           get_current_position (v\<lparr>progress_to_next_waypoint := 0\<rparr>) = Inr cw \<and>
           (double_sub (fst nw) (fst cw) = fst nw - fst cw \<and>
            double_sub (snd nw) (snd cw) = snd nw - snd cw \<longrightarrow>
            get_current_position (v\<lparr>progress_to_next_waypoint := 1\<rparr>) = Inr nw)"
proof -
  let ?wps = "waypoints (route v)"
  obtain cw where cw: "py_index ?wps (current_waypoint_index v) = Inr cw"
    using py_index_total [of ?wps "current_waypoint_index v"] assms(1,2) by auto
  obtain nw where nw: "py_index ?wps (current_waypoint_index v + 1) = Inr nw"
    using py_index_total [of ?wps "current_waypoint_index v + 1"] assms(1,2) by auto
  have ne: "?wps \<noteq> []" using assms(1,2) by auto
  have c: "round_double (fst cw) = fst cw" "round_double (snd cw) = snd cw"
    using assms(3) py_index_in_set [OF cw] by (auto simp: plain_double_def)
  have n: "round_double (fst nw) = fst nw" "round_double (snd nw) = snd nw"
    using assms(3) py_index_in_set [OF nw] by (auto simp: plain_double_def)
  have zero: "get_current_position (v\<lparr>progress_to_next_waypoint := 0\<rparr>) = Inr cw"
    using assms(2) ne cw nw c
    by (simp add: get_current_position_def double_add_def double_mul_def round_double_zero)
  have one: "get_current_position (v\<lparr>progress_to_next_waypoint := 1\<rparr>) = Inr nw"
    if "double_sub (fst nw) (fst cw) = fst nw - fst cw"
      and "double_sub (snd nw) (snd cw) = snd nw - snd cw"
  proof -
    have "double_mul (double_sub (fst nw) (fst cw)) 1 = fst nw - fst cw"
      using that(1) by (simp add: double_mul_def double_sub_def)
    moreover have "double_mul (double_sub (snd nw) (snd cw)) 1 = snd nw - snd cw"
      using that(2) by (simp add: double_mul_def double_sub_def)
    ultimately show ?thesis
      using assms(2) ne cw nw n
      by (simp add: get_current_position_def double_add_def)
  qed
  from cw nw zero one show ?thesis by blast
qed

text \<open>
  Claim C6 at a vehicle on the first segment of the route \<open>[(0,0), (0,1), (1,1), (0,0)]\<close>.
\<close>

theorem C6_witness:
  "get_current_position (grid_vehicle\<lparr>progress_to_next_waypoint := 0\<rparr>) = Inr (0, 0) \<and>
   get_current_position (grid_vehicle\<lparr>progress_to_next_waypoint := 1\<rparr>) = Inr (0, 1)"
  using C6_position_at_segment_ends [of grid_vehicle]
  by (simp add: grid_vehicle_def py_index_def plain_double_zero plain_double_one
      double_sub_def round_double_zero round_double_one)

text \<open>
  Claim C6 as stated fails at progress 1 when a difference of coordinates is rounded: on
  the segment from latitude 1 to latitude \<open>2\<close> to the power \<open>- 54\<close>, both doubles, the
  difference rounds to \<open>- 1\<close> and the position returned has the latitude 0, which is not
  the latitude of the next waypoint.
\<close>

theorem C6_rounded_difference_counterexample:
  "2 \<le> length (waypoints (route tiny_step_vehicle)) \<and>
   current_waypoint_index tiny_step_vehicle <
     int (length (waypoints (route tiny_step_vehicle))) - 1 \<and>
   plain_double 1 \<and> plain_double (1 / 2 ^ 54) \<and> plain_double 0 \<and>
   py_index (waypoints (route tiny_step_vehicle))
     (current_waypoint_index tiny_step_vehicle + 1) = Inr (1 / 2 ^ 54, 0) \<and>
   get_current_position (tiny_step_vehicle\<lparr>progress_to_next_waypoint := 1\<rparr>) = Inr (0, 0) \<and>
   (0 :: real) \<noteq> 1 / 2 ^ 54"
proof -
  have sub: "double_sub (1 / 2 ^ 54) 1 = - 1"
    unfolding double_sub_def by (rule round_double_tie)
  have mul: "double_mul (- 1) 1 = - 1"
    by (simp add: double_mul_def round_double_minus_one)
  have add: "double_add 1 (- 1) = 0"
    by (simp add: double_add_def round_double_zero)
  have lon: "double_add 0 (double_mul (double_sub 0 0) 1) = 0"
    by (simp add: double_add_def double_mul_def double_sub_def round_double_zero)
  have "get_current_position (tiny_step_vehicle\<lparr>progress_to_next_waypoint := 1\<rparr>) =
      Inr (double_add 1 (double_mul (double_sub (1 / 2 ^ 54) 1) 1),
           double_add 0 (double_mul (double_sub 0 0) 1))"
    by (simp add: get_current_position_def tiny_step_vehicle_def py_index_def)
  then have pos: "get_current_position (tiny_step_vehicle\<lparr>progress_to_next_waypoint := 1\<rparr>) =
      Inr (0, 0)"
    by (simp only: sub mul add lon)
  have idx: "2 \<le> length (waypoints (route tiny_step_vehicle)) \<and>
      current_waypoint_index tiny_step_vehicle <
        int (length (waypoints (route tiny_step_vehicle))) - 1 \<and>
      py_index (waypoints (route tiny_step_vehicle))
        (current_waypoint_index tiny_step_vehicle + 1) = Inr (1 / 2 ^ 54, 0)"
    by (simp add: tiny_step_vehicle_def py_index_def)
  have ne: "(0 :: real) \<noteq> 1 / 2 ^ 54" by simp
  from idx pos ne plain_double_zero plain_double_one plain_double_tiny show ?thesis
    by blast
qed

text \<open>
  Claim C7. For a vehicle before its last waypoint index, whatever the coordinates of the
  waypoints, \<open>update_heading\<close> returns and the heading it leaves is at least 0 and
  less than 360.
\<close>

theorem C7_heading_in_range:
  assumes "- int (length (waypoints (route v))) \<le> current_waypoint_index v"
    and "current_waypoint_index v < int (length (waypoints (route v))) - 1"
  shows "\<exists>v'. update_heading v = Inr v' \<and> 0 \<le> heading v' \<and> heading v' < 360"
proof -
  obtain b where "update_heading v = Inr (v\<lparr>heading := b\<rparr>)" "0 \<le> b" "b < 360"
    using update_heading_moving [OF assms] by blast
  then show ?thesis by simp
qed

text \<open>
  Claim C10. For a vehicle whose index is the last index or lies past the end of the
  waypoint list, \<open>get_current_position\<close> returns the final waypoint, and
  \<open>update_heading\<close> and \<open>advance\<close> return the vehicle as it was; none of the three
  raises.
\<close>

theorem C10_parked_total:
  assumes "waypoints (route v) \<noteq> []"
    and "int (length (waypoints (route v))) - 1 \<le> current_waypoint_index v"
  shows "get_current_position v = Inr (last (waypoints (route v))) \<and>
         update_heading v = Inr v \<and> advance v dt = Inr v"
  using assms
  by (simp add: get_current_position_def py_index_last update_heading_parked advance_parked)

text \<open>
  Claim C9. On a route with exactly one waypoint, a vehicle at index 0 (or at any index
  that is not negative) is left as it is by every sequence of \<open>advance\<close> calls, whatever
  the time steps.
\<close>

theorem C9_single_waypoint_unaffected:
  assumes "length (waypoints (route v)) = 1" and "0 \<le> current_waypoint_index v"
  shows "advance_calls v dts = Inr v"
proof (induction dts)
  case Nil
  show ?case by simp
next
  case (Cons dt dts)
  have "advance v dt = Inr v" using assms by (simp add: advance_parked)
  with Cons show ?case by simp
qed

text \<open>
  Claim C5. For a vehicle whose progress is at least 0 and below 1 and a time step that is
  not negative, the progress is again at least 0 and below 1 after \<open>advance\<close> returns.
  The speed of a vehicle is positive in the data model; the proof needs only that it is
  not negative.
\<close>

theorem C5_progress_invariant:
  assumes p: "0 \<le> progress_to_next_waypoint v" "progress_to_next_waypoint v < 1"
    and dt: "0 \<le> dt" and sp: "0 \<le> speed_km_hr v"
    and adv: "advance v dt = Inr v'"
  shows "0 \<le> progress_to_next_waypoint v' \<and> progress_to_next_waypoint v' < 1"
proof (cases "waypoints (route v) = [] \<or>
    int (length (waypoints (route v))) - 1 \<le> current_waypoint_index v")
  case True
  then have "advance v dt = Inr v" by (rule advance_parked)
  with adv p show ?thesis by simp
next
  case False
  let ?n = "int (length (waypoints (route v)))"
  from False have ne: "waypoints (route v) \<noteq> []" and hi: "current_waypoint_index v < ?n - 1"
    by auto
  have lo: "- ?n \<le> current_waypoint_index v"
  proof (rule ccontr)
    assume "\<not> - ?n \<le> current_waypoint_index v"
    then have "advance v dt = Inl IndexError" using ne by (simp add: advance_below)
    with adv show False by simp
  qed
  obtain seg where seg: "0 \<le> seg" and eq: "advance v dt =
             (if seg = 0
              then Inr (v\<lparr>current_waypoint_index := current_waypoint_index v + 1,
                          progress_to_next_waypoint := 0\<rparr>)
              else update_heading
                     (v\<lparr>current_waypoint_index :=
                          fst (advance_loop ?n (current_waypoint_index v)
                                 (progress_to_next_waypoint v + speed_km_hr v / 3600 * dt / seg)),
                        progress_to_next_waypoint :=
                          snd (advance_loop ?n (current_waypoint_index v)
                                 (progress_to_next_waypoint v + speed_km_hr v / 3600 * dt / seg))\<rparr>))"
    using advance_moving [OF lo hi, of dt] by blast
  show ?thesis
  proof (cases "seg = 0")
    case True
    with eq adv show ?thesis by auto
  next
    case False
    let ?q = "progress_to_next_waypoint v + speed_km_hr v / 3600 * dt / seg"
    have "0 \<le> speed_km_hr v / 3600 * dt / seg" using sp dt seg by simp
    then have q: "0 \<le> ?q" using p by simp
    obtain i' p' where lp: "advance_loop ?n (current_waypoint_index v) ?q = (i', p')"
      by (cases "advance_loop ?n (current_waypoint_index v) ?q") auto
    have rng: "0 \<le> p' \<and> p' < 1" using advance_loop_range [OF hi q lp] by simp
    have "update_heading (v\<lparr>current_waypoint_index := i', progress_to_next_waypoint := p'\<rparr>) = Inr v'"
      using eq adv False lp by simp
    then have "progress_to_next_waypoint v' = p'"
      using update_heading_fields by fastforce
    with rng show ?thesis by simp
  qed
qed

text \<open>
  Claim C1. On a route whose last segment has length zero, the first \<open>advance\<close> of a
  vehicle on that segment moves the index to the last index, 2, without the reset to 0,
  and every later call leaves it there: the vehicle never returns to waypoint 0.
\<close>

theorem C1_zero_length_last_segment_parks:
  "advance_calls closing_stop_vehicle (dt # dts) =
     Inr (closing_stop_vehicle\<lparr>current_waypoint_index := 2, progress_to_next_waypoint := 0\<rparr>) \<and>
   int (length (waypoints (route closing_stop_vehicle))) - 1 = 2"
proof -
  let ?p = "closing_stop_vehicle\<lparr>current_waypoint_index := 2, progress_to_next_waypoint := 0\<rparr>"
  have step: "advance closing_stop_vehicle dt = Inr ?p"
    by (simp add: advance_def closing_stop_vehicle_def py_index_def distance_self)
  have parked: "advance_calls ?p ts = Inr ?p" for ts
  proof (induction ts)
    case Nil
    show ?case by simp
  next
    case (Cons t ts)
    have "advance ?p t = Inr ?p"
      by (rule advance_parked) (simp add: closing_stop_vehicle_def)
    with Cons show ?case by simp
  qed
  show ?thesis using step parked [of dts] by (simp add: closing_stop_vehicle_def)
qed

text \<open>
  Claim C4. On a route whose first segment has length zero, \<open>advance\<close> moves the
  vehicle to index 1 and leaves the heading at 0, while \<open>update_heading\<close> on the state
  it returns sets the heading to 90, the bearing of the segment the vehicle is now on.
\<close>

theorem C4_snap_leaves_heading_stale:
  "advance doubled_start_vehicle dt =
     Inr (doubled_start_vehicle\<lparr>current_waypoint_index := 1, progress_to_next_waypoint := 0,
            heading := 0\<rparr>) \<and>
   update_heading (doubled_start_vehicle\<lparr>current_waypoint_index := 1,
       progress_to_next_waypoint := 0, heading := 0\<rparr>) =
     Inr (doubled_start_vehicle\<lparr>current_waypoint_index := 1, progress_to_next_waypoint := 0,
            heading := 90\<rparr>)"
  by (simp add: advance_def update_heading_def doubled_start_vehicle_def py_index_def
      distance_self east_bearing)

text \<open>Claim C5 at the demo vehicle, of speed 25 km/h, and the time step 0.5.\<close>

theorem C5_witness:
  "\<exists>v'. advance demo_vehicle 0.5 = Inr v' \<and>
     0 \<le> progress_to_next_waypoint v' \<and> progress_to_next_waypoint v' < 1"
proof -
  have lo: "- int (length (waypoints (route demo_vehicle))) \<le> current_waypoint_index demo_vehicle"
    by (simp add: demo_vehicle_def)
  obtain v' where adv: "advance demo_vehicle 0.5 = Inr v'"
    using advance_total [OF lo] by blast
  have h1: "0 \<le> progress_to_next_waypoint demo_vehicle" by (simp add: demo_vehicle_def)
  have h2: "progress_to_next_waypoint demo_vehicle < 1" by (simp add: demo_vehicle_def)
  have h3: "(0::real) \<le> 0.5" by simp
  have h4: "0 \<le> speed_km_hr demo_vehicle" by (simp add: demo_vehicle_def)
  show ?thesis using adv C5_progress_invariant [OF h1 h2 h3 h4 adv] by blast
qed

text \<open>Claim C7 at the demo vehicle.\<close>

theorem C7_witness:
  "\<exists>v'. update_heading demo_vehicle = Inr v' \<and> 0 \<le> heading v' \<and> heading v' < 360"
  using C7_heading_in_range [of demo_vehicle]
  by (simp add: demo_vehicle_def manhattan_route_def)

text \<open>Claim C9 at the vehicle of the single stop, for three calls.\<close>

theorem C9_witness:
  "advance_calls single_stop_vehicle [0.5, 0.5, 30] = Inr single_stop_vehicle"
  using C9_single_waypoint_unaffected [of single_stop_vehicle "[0.5, 0.5, 30]"]
  by (simp add: single_stop_vehicle_def)

text \<open>Claim C10 at the demo vehicle moved to index 7, past the end of its six waypoints.\<close>

theorem C10_witness:
  "get_current_position (demo_vehicle\<lparr>current_waypoint_index := 7\<rparr>) = Inr (40.7128, - 74.0060) \<and>
   update_heading (demo_vehicle\<lparr>current_waypoint_index := 7\<rparr>) =
     Inr (demo_vehicle\<lparr>current_waypoint_index := 7\<rparr>) \<and>
   advance (demo_vehicle\<lparr>current_waypoint_index := 7\<rparr>) 1 =
     Inr (demo_vehicle\<lparr>current_waypoint_index := 7\<rparr>)"
  using C10_parked_total [of "demo_vehicle\<lparr>current_waypoint_index := 7\<rparr>" 1]
  by (simp add: demo_vehicle_def manhattan_route_def)


section \<open>The chunks of a tick\<close>







section \<open>Submission and the tick total\<close>

lemma add_events_tracks: "tracks c (add_events snk c rest b n)"
proof (induction rest arbitrary: b n)
  case Nil
  show ?case by simp
next
  case (Cons ev rest)
  show ?case
  proof (cases "add snk b ev")
    case (Inr b')
    with Cons [of b' "n + 1"] show ?thesis by simp
  next
    case (Inl e)
    then show ?thesis by (cases e) simp_all
  qed
qed

lemma resume_tracks: "tracks c t \<Longrightarrow> tracks c (fst (resume snk t s))"
proof (cases t)
  case (Create_First d)
  assume "tracks c t"
  with Create_First show ?thesis
    by (cases "create_batch snk s"; cases "fst (create_batch snk s)")
       (auto simp: add_events_tracks)
next
  case (Send_Full d b ev rest)
  assume "tracks c t"
  with Send_Full show ?thesis
    by (cases "send_batch snk b s"; cases "fst (send_batch snk b s)") auto
next
  case (Create_Fresh d ev rest)
  assume tr: "tracks c t"
  obtain r s1 where c1: "create_batch snk s = (r, s1)" by (cases "create_batch snk s") auto
  show ?thesis
  proof (cases r)
    case (Inl e)
    with tr Create_Fresh c1 show ?thesis by simp
  next
    case (Inr fresh)
    with tr Create_Fresh c1 show ?thesis
      by (cases "add snk fresh ev") (auto simp: add_events_tracks)
  qed
next
  case (Send_Final d b)
  assume "tracks c t"
  with Send_Final show ?thesis
    by (cases "send_batch snk b s"; cases "fst (send_batch snk b s)") auto
next
  case (Returned d r)
  assume "tracks c t"
  with Returned show ?thesis by simp
qed

lemma finish_Returned: "finish snk (Returned c r) s = (r, s)"
  by (simp add: finish.simps)

lemma finish_resume:
  assumes "\<not> is_returned t"
  shows "finish snk t s = finish snk (fst (resume snk t s)) (snd (resume snk t s))"
proof -
  have "finish snk t s = (case resume snk t s of (t', s') \<Rightarrow> finish snk t' s')"
    using assms by (subst finish.simps) (cases t; simp del: resume.simps)
  then show ?thesis by (simp add: case_prod_beta)
qed

lemma finish_cases_induct:
  assumes ret: "\<And>snk c r s. P snk (Returned c r) s"
    and res: "\<And>snk t s. \<not> is_returned t \<Longrightarrow>
                P snk (fst (resume snk t s)) (snd (resume snk t s)) \<Longrightarrow> P snk t s"
  shows "P snk t s"
proof (induction snk t s rule: finish.induct)
  case (1 snk t s)
  obtain t' s' where st: "(t', s') = resume snk t s" by (cases "resume snk t s") auto
  show ?case
  proof (cases t)
    case (Create_First c)
    have "P snk t' s'" by (rule "1.IH"(1) [OF Create_First st])
    then have "P snk (fst (resume snk t s)) (snd (resume snk t s))"
      by (simp add: st [symmetric])
    moreover have "\<not> is_returned t" by (simp add: Create_First)
    ultimately show ?thesis by (rule res [rotated])
  next
    case (Send_Full c b ev rest)
    have "P snk t' s'" by (rule "1.IH"(2) [OF Send_Full st])
    then have "P snk (fst (resume snk t s)) (snd (resume snk t s))"
      by (simp add: st [symmetric])
    moreover have "\<not> is_returned t" by (simp add: Send_Full)
    ultimately show ?thesis by (rule res [rotated])
  next
    case (Create_Fresh c ev rest)
    have "P snk t' s'" by (rule "1.IH"(3) [OF Create_Fresh st])
    then have "P snk (fst (resume snk t s)) (snd (resume snk t s))"
      by (simp add: st [symmetric])
    moreover have "\<not> is_returned t" by (simp add: Create_Fresh)
    ultimately show ?thesis by (rule res [rotated])
  next
    case (Send_Final c b)
    have "P snk t' s'" by (rule "1.IH"(4) [OF Send_Final st])
    then have "P snk (fst (resume snk t s)) (snd (resume snk t s))"
      by (simp add: st [symmetric])
    moreover have "\<not> is_returned t" by (simp add: Send_Final)
    ultimately show ?thesis by (rule res [rotated])
  next
    case (Returned c r)
    then show ?thesis by (simp add: ret)
  qed
qed

lemma finish_tracks:
  "tracks c t \<Longrightarrow> isl (fst (finish snk t s)) \<or> fst (finish snk t s) = Inr (length c)"
proof (induction snk t s rule: finish_cases_induct)
  case (1 snk d r s)
  then show ?case by (cases r) (simp_all add: finish_Returned)
next
  case (2 snk t s)
  have "tracks c (fst (resume snk t s))" using "2.prems" by (rule resume_tracks)
  then show ?case using "2.IH" finish_resume [OF "2.hyps", of snk s] by simp
qed

lemma run_schedule_tracks:
  "list_all2 tracks cs ts \<Longrightarrow> list_all2 tracks cs (fst (run_schedule snk sched ts s))"
proof (induction sched arbitrary: ts s)
  case Nil
  then show ?case by simp
next
  case (Cons k sched)
  show ?case
  proof (cases "k < length ts \<and> holds_semaphore ts k")
    case False
    with Cons show ?thesis by auto
  next
    case True
    obtain t' s' where st: "resume snk (ts ! k) s = (t', s')"
      by (cases "resume snk (ts ! k) s") auto
    have len: "length cs = length ts" using Cons.prems by (rule list_all2_lengthD)
    have "tracks (cs ! k) (ts ! k)" using Cons.prems True by (simp add: list_all2_nthD2)
    then have "tracks (cs ! k) t'" using resume_tracks [of "cs ! k" "ts ! k" snk s] st by simp
    then have "list_all2 tracks (cs[k := cs ! k]) (ts[k := t'])"
      using Cons.prems by (rule list_all2_update_cong [rotated])
    then have "list_all2 tracks cs (ts[k := t'])" by simp
    from Cons.IH [OF this, of s'] True st show ?thesis by simp
  qed
qed

lemma finish_all_outcomes:
  "list_all2 tracks cs ts \<Longrightarrow>
     list_all2 (\<lambda>c r. isl r \<or> r = Inr (length c)) cs (fst (finish_all snk ts s))"
proof (induction ts arbitrary: cs s)
  case Nil
  then show ?case by simp
next
  case (Cons t ts)
  then obtain c cs' where cs: "cs = c # cs'" and h: "tracks c t" and t: "list_all2 tracks cs' ts"
    by (auto simp: list_all2_Cons2)
  obtain r s1 where f: "finish snk t s = (r, s1)" by (cases "finish snk t s") auto
  have "isl r \<or> r = Inr (length c)" using finish_tracks [OF h, of snk s] f by simp
  with Cons.IH [OF t, of s1] f cs show ?case by (simp add: case_prod_beta)
qed

lemma gather_batches_outcomes:
  "list_all2 (\<lambda>c r. isl r \<or> r = Inr (length c)) cs (fst (gather_batches snk sched cs s))"
proof -
  have "list_all2 tracks cs (map Create_First cs)"
    by (simp add: list_all2_conv_all_nth)
  then have "list_all2 tracks cs (fst (run_schedule snk sched (map Create_First cs) s))"
    by (rule run_schedule_tracks)
  then show ?thesis
    using finish_all_outcomes by (simp add: gather_batches_def case_prod_beta)
qed




lemma gather_batches_length: "length (fst (gather_batches snk sched cs s)) = length cs"
  using gather_batches_outcomes [of cs snk sched s] by (simp add: list_all2_lengthD)








lemma add_events_counting:
  "add_events counting_sink c rest b n =
     (if 0 < n + length rest then Send_Final c (b @ rest) else Returned c (Inr (length c)))"
  by (induction rest arbitrary: b n) (simp_all add: counting_sink_def)

lemma counting_chunks:
  "event_batches (replicate 150 (0::nat)) = [replicate 100 0, replicate 50 0]"
  by (simp add: event_batches_def py_slice_def py_range.simps [of 0] py_range.simps [of 100]
      py_range.simps [of 200])

lemma counting_ops:
  "create_batch counting_sink s = (Inr [], s + 1)"
  "send_batch counting_sink b s = (if s < 2 then (Some SinkError, s) else (None, s))"
  by (simp_all add: counting_sink_def)

text \<open>
  The order of the resumptions matters to a client that depends on it. With 150 events
  and the client that refuses to send before it has created two batches: when each
  submission runs to its end before the next starts, the first chunk fails and the total is
  50; when both submissions create their batch before either sends, the total is 150.
\<close>

lemma interleaved_submissions_example:
  "fst (send_events_parallel_batches counting_sink [] (replicate 150 (0::nat)) 0) = 50 \<and>
   fst (send_events_parallel_batches counting_sink [0, 1] (replicate 150 (0::nat)) 0) = 150"
  by (simp add: send_events_parallel_batches_def counting_chunks gather_batches_def
      holds_semaphore_def finish_resume finish_Returned add_events_counting counting_ops)



lemma feed_iteration_counters:
  assumes "feed_iteration snk agency num_vehicles poll_interval tick (c, g) = Inr (c', g')"
  shows "total_events_sent c' = total_events_sent c + num_vehicles \<and>
         batch_count c' = batch_count c + 1 \<and>
         length (logged_tick_totals c') = length (logged_tick_totals c) + 1"
proof -
  obtain time_iso uuid4 sched where tk: "tick = (time_iso, uuid4, sched)"
    by (cases tick) auto
  show ?thesis
  proof (cases "send_vehicle_events snk g agency time_iso uuid4 sched")
    case (Inl e)
    with assms tk show ?thesis by (simp add: feed_iteration_def)
  next
    case (Inr gt)
    obtain g1 t where gt: "gt = (g1, t)" by (cases gt) auto
    show ?thesis
    proof (cases "advance_vehicles (vehicles g1) poll_interval")
      case (Inl e)
      with assms tk Inr gt show ?thesis by (simp add: feed_iteration_def)
    next
      case vs: (Inr vs)
      with assms tk Inr gt show ?thesis by (auto simp: feed_iteration_def)
    qed
  qed
qed

text \<open>
  Claim C3, amended. Every iteration of the feed loop that completes adds
  \<open>num_vehicles\<close> to the cumulative counter, whatever the tick total of that iteration
  is: after the iterations of a run the counter has grown by \<open>num_vehicles\<close> times their
  number.
\<close>

theorem C3_counter_adds_num_vehicles:
  "feed_loop snk agency num_vehicles poll_interval ticks (c, g) = Inr (c', g') \<Longrightarrow>
     total_events_sent c' = total_events_sent c + num_vehicles * int (length ticks) \<and>
     batch_count c' = batch_count c + int (length ticks) \<and>
     length (logged_tick_totals c') = length (logged_tick_totals c) + length ticks"
proof (induction ticks arbitrary: c g)
  case Nil
  then show ?case by simp
next
  case (Cons tick ticks)
  show ?case
  proof (cases "feed_iteration snk agency num_vehicles poll_interval tick (c, g)")
    case (Inl e)
    with Cons.prems show ?thesis by simp
  next
    case (Inr cg)
    obtain c1 g1 where cg: "cg = (c1, g1)" by (cases cg) auto
    have it: "total_events_sent c1 = total_events_sent c + num_vehicles \<and>
         batch_count c1 = batch_count c + 1 \<and>
         length (logged_tick_totals c1) = length (logged_tick_totals c) + 1"
      using feed_iteration_counters Inr cg by blast
    have "feed_loop snk agency num_vehicles poll_interval ticks (c1, g1) = Inr (c', g')"
      using Cons.prems Inr cg by simp
    from Cons.IH [OF this] it show ?thesis by (simp add: algebra_simps)
  qed
qed

lemma single_stop_tick_failing:
  "feed_iteration failing_sink agency 1 poll_interval (time_iso, fixed_uuid4, [])
     (c, single_stop_generator ()) =
   Inr (c\<lparr>total_events_sent := total_events_sent c + 1, batch_count := batch_count c + 1,
          logged_tick_totals := 0 # logged_tick_totals c\<rparr>, single_stop_generator ())"
  by (simp add: feed_iteration_def send_vehicle_events_def single_stop_generator_def
      create_all_events_optimized_def create_event_data_optimized_def get_current_position_def
      single_stop_vehicle_def py_index_def send_events_parallel_batches_def event_batches_def
      py_range.simps [of 0] py_range.simps [of 100] py_slice_def gather_batches_def
      finish_resume finish_Returned failing_sink_def advance_def)

text \<open>
  Claim C3 as stated fails when a submission fails: with one vehicle and a sink that
  raises, the tick total of the iteration is 0 and the counter goes from 0 to 1.
\<close>

theorem C3_failed_tick_counterexample:
  "feed_iteration failing_sink ''demo'' 1 0.5 (''2026-01-01T00:00:00+00:00'', fixed_uuid4, [])
     (fresh_counters, single_stop_generator ()) =
   Inr (\<lparr>total_events_sent = 1, batch_count = 1, logged_tick_totals = [0]\<rparr>,
        single_stop_generator ()) \<and>
   (1::int) \<noteq> int (sum_list [0])"
  by (simp add: single_stop_tick_failing fresh_counters_def)

text \<open>The amended claim C3 at two iterations of that run.\<close>

theorem C3_witness:
  "feed_loop failing_sink ''demo'' 1 0.5
     [(''2026-01-01T00:00:00+00:00'', fixed_uuid4, []), (''2026-01-01T00:00:01+00:00'', fixed_uuid4, [])]
     (fresh_counters, single_stop_generator ()) =
   Inr (\<lparr>total_events_sent = 2, batch_count = 2, logged_tick_totals = [0, 0]\<rparr>,
        single_stop_generator ()) \<and>
   total_events_sent \<lparr>total_events_sent = 2, batch_count = 2, logged_tick_totals = [0, 0]\<rparr> =
     total_events_sent fresh_counters + 1 * int (length [(), ()])"
proof -
  have run: "feed_loop failing_sink ''demo'' 1 0.5
     [(''2026-01-01T00:00:00+00:00'', fixed_uuid4, []), (''2026-01-01T00:00:01+00:00'', fixed_uuid4, [])]
     (fresh_counters, single_stop_generator ()) =
   Inr (\<lparr>total_events_sent = 2, batch_count = 2, logged_tick_totals = [0, 0]\<rparr>,
        single_stop_generator ())"
    by (simp add: single_stop_tick_failing fresh_counters_def)
  show ?thesis using run C3_counter_adds_num_vehicles [OF run] by simp
qed

end
